theory Spec2Isabelle
  imports Main "HOL-Library.Multiset"
begin

section \<open>Text as the script sees it\<close>

text \<open>
  The script \<^verbatim>\<open>scripts/utils/find_longest_functions.py\<close> reads C files in text mode and
  works on Python strings. A line is modelled as a \<^typ>\<open>string\<close>; the character classes
  below are Python's \<^verbatim>\<open>str.isspace\<close> (used by \<^verbatim>\<open>strip()\<close> and by \<^verbatim>\<open>\s\<close>) and the
  regular expression class \<^verbatim>\<open>\w\<close>, on the ASCII range. The model is about ASCII source
  text: a character outside that range is taken to be neither white space nor a word
  character.
\<close>

definition isspace :: "char \<Rightarrow> bool" where
  \<comment> \<open>tab, newline, vertical tab, form feed, carriage return, FS, GS, RS, US, blank\<close>
  "isspace c = (let n = (of_char c :: nat) in (9 \<le> n \<and> n \<le> 13) \<or> (28 \<le> n \<and> n \<le> 32))"

definition isword :: "char \<Rightarrow> bool" where
  \<comment> \<open>the class \<^verbatim>\<open>\w\<close>: digits, upper case, underscore, lower case\<close>
  "isword c = (let n = (of_char c :: nat) in
     (48 \<le> n \<and> n \<le> 57) \<or> (65 \<le> n \<and> n \<le> 90) \<or> n = 95 \<or> (97 \<le> n \<and> n \<le> 122))"

definition strip :: "string \<Rightarrow> string" where
  \<comment> \<open>\<^verbatim>\<open>line.strip()\<close>: white space removed at both ends\<close>
  "strip s = rev (dropWhile isspace (rev (dropWhile isspace s)))"

definition startswith :: "string \<Rightarrow> string \<Rightarrow> bool" where
  "startswith s p = (take (length p) s = p)"

definition count :: "string \<Rightarrow> char \<Rightarrow> int" where
  \<comment> \<open>\<^verbatim>\<open>s.count(c)\<close> for a single character\<close>
  "count s c = int (count_list s c)"

fun digits :: "nat \<Rightarrow> string" where
  "digits n = (if n < 10 then [char_of (48 + n)] else digits (n div 10) @ [char_of (48 + n mod 10)])"

declare digits.simps [simp del]

definition str :: "int \<Rightarrow> string" where
  \<comment> \<open>the decimal rendering of an integer inside an f-string\<close>
  "str n = (if n < 0 then CHR ''-'' # digits (nat (- n)) else digits (nat n))"

fun enumerate_from :: "int \<Rightarrow> 'a list \<Rightarrow> (int \<times> 'a) list" where
  \<comment> \<open>\<^verbatim>\<open>enumerate(xs, n)\<close>\<close>
  "enumerate_from n [] = []"
| "enumerate_from n (x # xs) = (n, x) # enumerate_from (n + 1) xs"

section \<open>The signature heuristic\<close>

text \<open>
  \<^verbatim>\<open>func_pattern = re.compile(r'^(static\s+)?(\w+\s+\*?)(\w+)\s*\([^)]*\)\s*\{?$')\<close>

  \<^verbatim>\<open>func_pattern.match(stripped)\<close> is modelled by the function \<open>func_pattern_match\<close>,
  which returns \<open>Some\<close> of group 3 when the pattern matches and \<open>None\<close> otherwise.
  The backtracking search of the regular expression engine is deterministic on this
  pattern, because each repetition is followed by an item of a disjoint character class:
  \<^verbatim>\<open>\w+\<close> is followed by \<^verbatim>\<open>\s\<close> or by \<^verbatim>\<open>\s*\(\<close>, \<^verbatim>\<open>\s+\<close> by \<^verbatim>\<open>\*?\w\<close>,
  \<^verbatim>\<open>[^)]*\<close> by \<^verbatim>\<open>\)\<close>, so each repetition can only succeed on the whole run of its class.
  The one real choice is the optional group 1, which the engine tries first with
  \<^verbatim>\<open>static\s+\<close> taken and then without it. \<^verbatim>\<open>$\<close> matches at the end of the string and
  before a newline that ends it.
\<close>

definition match_tail :: "string \<Rightarrow> bool" where
  \<comment> \<open>\<^verbatim>\<open>\s*\{?$\<close>\<close>
  "match_tail s = (let r = dropWhile isspace s in
     r = [] \<or> r = ''{'' \<or> r = [CHR ''{'', CHR 10])"

definition match_args :: "string \<Rightarrow> bool" where
  \<comment> \<open>\<^verbatim>\<open>\s*\([^)]*\)\s*\{?$\<close>\<close>
  "match_args s =
     (case dropWhile isspace s of
        [] \<Rightarrow> False
      | c # r \<Rightarrow>
          if c = CHR ''('' then
            (case dropWhile (\<lambda>x. x \<noteq> CHR '')'') r of
               [] \<Rightarrow> False
             | _ # t \<Rightarrow> match_tail t)
          else False)"

definition match_decl :: "string \<Rightarrow> string option" where
  \<comment> \<open>\<^verbatim>\<open>(\w+\s+\*?)(\w+)\s*\([^)]*\)\s*\{?$\<close>, returning group 3\<close>
  "match_decl s =
     (let ty = takeWhile isword s; r1 = dropWhile isword s;
          r2 = dropWhile isspace r1;
          r3 = (case r2 of [] \<Rightarrow> r2 | c # t \<Rightarrow> if c = CHR ''*'' then t else r2);
          name = takeWhile isword r3; r4 = dropWhile isword r3
      in if ty = [] \<or> r2 = r1 \<or> name = [] then None
         else if match_args r4 then Some name else None)"

definition func_pattern_match :: "string \<Rightarrow> string option" where
  "func_pattern_match s =
     (let with_static =
        (if startswith s ''static'' then
           (let r = drop 6 s; r' = dropWhile isspace r
            in if r' = r then None else match_decl r')
         else None)
      in case with_static of Some name \<Rightarrow> Some name | None \<Rightarrow> match_decl s)"

subsection \<open>The pattern read as a set of strings\<close>

text \<open>
  The same regular expression, item by item, as the strings it matches: \<open>pattern_shape s name\<close>
  says that \<open>s\<close> splits into the items of the pattern with \<open>name\<close> as group 3. It is
  used only to check \<open>func_pattern_match\<close> against the pattern.
\<close>

definition tail_shape :: "string \<Rightarrow> bool" where
  "tail_shape s = (\<exists>sp br nl. s = sp @ br @ nl \<and> (\<forall>c \<in> set sp. isspace c)
      \<and> (br = [] \<or> br = ''{'') \<and> (nl = [] \<or> nl = [CHR 10]))"

definition args_shape :: "string \<Rightarrow> bool" where
  "args_shape s = (\<exists>sp args rest. s = sp @ ''('' @ args @ '')'' @ rest \<and> (\<forall>c \<in> set sp. isspace c)
      \<and> CHR '')'' \<notin> set args \<and> tail_shape rest)"

definition decl_shape :: "string \<Rightarrow> string \<Rightarrow> bool" where
  "decl_shape s name = (\<exists>ty sp star rest. s = ty @ sp @ star @ name @ rest
      \<and> ty \<noteq> [] \<and> (\<forall>c \<in> set ty. isword c) \<and> sp \<noteq> [] \<and> (\<forall>c \<in> set sp. isspace c)
      \<and> (star = [] \<or> star = ''*'') \<and> name \<noteq> [] \<and> (\<forall>c \<in> set name. isword c)
      \<and> args_shape rest)"

definition pattern_shape :: "string \<Rightarrow> string \<Rightarrow> bool" where
  "pattern_shape s name = (decl_shape s name \<or>
      (\<exists>sp rest. s = ''static'' @ sp @ rest \<and> sp \<noteq> [] \<and> (\<forall>c \<in> set sp. isspace c)
         \<and> decl_shape rest name))"

text \<open>Two abbreviations for parts of \<open>match_decl\<close> and \<open>func_pattern_match\<close>.\<close>

definition unstar :: "string \<Rightarrow> string" where
  "unstar r2 = (case r2 of [] \<Rightarrow> r2 | c # t \<Rightarrow> if c = CHR ''*'' then t else r2)"

definition static_taken :: "string \<Rightarrow> bool" where
  "static_taken s = (startswith s ''static'' \<and> dropWhile isspace (drop 6 s) \<noteq> drop 6 s
         \<and> match_decl (dropWhile isspace (drop 6 s)) \<noteq> None)"

section \<open>The function scanner\<close>

text \<open>
  A detected function is the tuple \<^verbatim>\<open>(func_name, func_start, func_length, file_path)\<close>
  that \<^verbatim>\<open>find_functions\<close> appends.
\<close>

type_synonym func_tuple = "string \<times> int \<times> int \<times> string"

definition name_of :: "func_tuple \<Rightarrow> string" where
  "name_of x = fst x"

definition start_of :: "func_tuple \<Rightarrow> int" where
  "start_of x = fst (snd x)"

definition length_of :: "func_tuple \<Rightarrow> int" where
  \<comment> \<open>\<^verbatim>\<open>x[2]\<close>\<close>
  "length_of x = fst (snd (snd x))"

definition path_of :: "func_tuple \<Rightarrow> string" where
  "path_of x = snd (snd (snd x))"

text \<open>The local variables of \<^verbatim>\<open>find_functions\<close> that the loop updates.\<close>

record scan_state =
  functions_found :: "func_tuple list"  \<comment> \<open>the list \<^verbatim>\<open>functions\<close>\<close>
  in_function :: bool
  func_start :: int
  func_name :: string
  brace_count :: int

definition init_state :: scan_state where
  "init_state = \<lparr>functions_found = [], in_function = False, func_start = 0,
                  func_name = [], brace_count = 0\<rparr>"

definition skipped :: "string \<Rightarrow> bool" where
  \<comment> \<open>the test of the first \<^verbatim>\<open>continue\<close>, on the stripped line\<close>
  "skipped stripped = (stripped = [] \<or> startswith stripped ''//'' \<or> startswith stripped ''#'')"

definition braces :: "string \<Rightarrow> int" where
  \<comment> \<open>\<^verbatim>\<open>stripped.count('{') - stripped.count('}')\<close>\<close>
  "braces stripped = count stripped CHR ''{'' - count stripped CHR ''}''"

definition track_braces :: "string \<Rightarrow> int \<Rightarrow> string \<Rightarrow> scan_state \<Rightarrow> scan_state" where
  \<comment> \<open>the block under \<^verbatim>\<open>if in_function:\<close> at the end of the loop body\<close>
  "track_braces file_path i stripped s =
     (if in_function s then
        (let s1 = s\<lparr>brace_count := brace_count s + braces stripped\<rparr>
         in if brace_count s1 = 0 then
              s1\<lparr>functions_found := functions_found s1 @
                     [(func_name s1, func_start s1, i - func_start s1 + 1, file_path)],
                  in_function := False,
                  func_name := []\<rparr>
            else s1)
      else s)"

definition loop_body :: "string \<Rightarrow> scan_state \<Rightarrow> int \<times> string \<Rightarrow> scan_state" where
  \<comment> \<open>one iteration of \<^verbatim>\<open>for i, line in enumerate(lines, 1)\<close>\<close>
  "loop_body file_path s il =
     (let i = fst il; stripped = strip (snd il) in
      if skipped stripped then s
      else if \<not> in_function s then
        (case func_pattern_match stripped of
           Some name \<Rightarrow>
             if \<not> startswith stripped ''typedef'' then
               s\<lparr>func_name := name, func_start := i, in_function := True,
                 brace_count := braces stripped\<rparr>
             else track_braces file_path i stripped s
         | None \<Rightarrow> track_braces file_path i stripped s)
      else track_braces file_path i stripped s)"

definition scan_from :: "string \<Rightarrow> int \<Rightarrow> scan_state \<Rightarrow> string list \<Rightarrow> scan_state" where
  \<comment> \<open>the loop, run from state \<open>s\<close> over lines numbered from \<open>n\<close>\<close>
  "scan_from file_path n s lines = foldl (loop_body file_path) s (enumerate_from n lines)"

definition scan :: "string \<Rightarrow> string list \<Rightarrow> scan_state" where
  \<comment> \<open>the state when \<^verbatim>\<open>for i, line in enumerate(lines, 1)\<close> is over\<close>
  "scan file_path lines = scan_from file_path 1 init_state lines"

text \<open>
  The file system is a function from a path to what \<^verbatim>\<open>f.readlines()\<close> returns, or
  \<open>None\<close> when \<^verbatim>\<open>open\<close> or \<^verbatim>\<open>readlines\<close> raises; the bare \<^verbatim>\<open>except\<close> catches every
  exception.
\<close>

type_synonym file_system = "string \<Rightarrow> string list option"

definition find_functions :: "file_system \<Rightarrow> string \<Rightarrow> func_tuple list" where
  "find_functions fs file_path =
     (case fs file_path of
        None \<Rightarrow> []
      | Some lines \<Rightarrow> functions_found (scan file_path lines))"

subsection \<open>What the claims say about the lines of a file\<close>

text \<open>
  The notions below are stated on the lines of the file alone, without the loop. A
  signature line is a line that the loop takes as the start of a function when it is
  outside a function. The brace depth of a run of lines is the sum, over its lines that
  are not skipped, of the opening braces minus the closing braces (the glossary's
  running count since the signature line).
\<close>

definition is_signature :: "string \<Rightarrow> bool" where
  "is_signature line =
     (\<not> skipped (strip line) \<and> func_pattern_match (strip line) \<noteq> None
      \<and> \<not> startswith (strip line) ''typedef'')"

definition counted :: "string \<Rightarrow> int" where
  "counted line = (if skipped (strip line) then 0 else braces (strip line))"

definition depth :: "string list \<Rightarrow> int" where
  "depth ls = sum_list (map counted ls)"

definition stays_open :: "int \<Rightarrow> string list \<Rightarrow> bool" where
  \<comment> \<open>starting from depth \<open>d\<close>, the depth is not zero after any line of \<open>body\<close> that is
      not skipped\<close>
  "stays_open d body =
     (\<forall>k \<in> {1..length body}.
        \<not> skipped (strip (body ! (k - 1))) \<longrightarrow> d + depth (take k body) \<noteq> 0)"

definition never_closes :: "string \<Rightarrow> string list \<Rightarrow> bool" where
  \<comment> \<open>the function that starts at \<open>sig\<close> is not closed when \<open>body\<close> runs out\<close>
  "never_closes sig body = stays_open (counted sig) body"

definition closes_at_last :: "string \<Rightarrow> string list \<Rightarrow> bool" where
  \<comment> \<open>the depth of the function that starts at \<open>sig\<close> returns to zero on the last line
      of \<open>body\<close> and not before\<close>
  "closes_at_last sig body =
     (body \<noteq> [] \<and> \<not> skipped (strip (last body)) \<and> depth (sig # body) = 0
      \<and> stays_open (counted sig) (butlast body))"

subsection \<open>An invariant of the loop\<close>

text \<open>
  When the lines before line \<open>n\<close> have been processed, every record lies before line
  \<open>n\<close>, the records start at increasing lines, and the function that is open, if any,
  starts after every record.
\<close>

definition placed :: "int \<Rightarrow> scan_state \<Rightarrow> bool" where
  "placed n s =
     ((\<forall>r \<in> set (functions_found s).
         1 \<le> start_of r \<and> 2 \<le> length_of r \<and> start_of r + length_of r \<le> n)
      \<and> sorted_wrt (\<lambda>a b. start_of a < start_of b) (functions_found s)
      \<and> (in_function s \<longrightarrow>
           1 \<le> func_start s \<and> func_start s < n
           \<and> (\<forall>r \<in> set (functions_found s). start_of r + length_of r \<le> func_start s)))"

definition closing_observed :: "string list \<Rightarrow> func_tuple \<Rightarrow> bool" where
  \<comment> \<open>the lines that the record spans are a signature line and a body that closes on
      its last line\<close>
  "closing_observed lines r =
     (1 \<le> start_of r \<and> 2 \<le> length_of r \<and> start_of r + length_of r - 1 \<le> int (length lines)
      \<and> is_signature (lines ! nat (start_of r - 1))
      \<and> closes_at_last (lines ! nat (start_of r - 1))
           (take (nat (length_of r - 1)) (drop (nat (start_of r)) lines)))"

text \<open>
  A second invariant relates the state to the lines \<open>seen\<close> so far: every record is a
  closing that was observed, and while a function is open, \<open>func_start\<close> is the line of
  its signature and \<open>brace_count\<close> is the depth since that line, which has not been zero
  after any line of the body that is not skipped.
\<close>

definition tracking :: "string list \<Rightarrow> scan_state \<Rightarrow> bool" where
  "tracking seen s =
     ((\<forall>r \<in> set (functions_found s). closing_observed seen r)
      \<and> (in_function s \<longrightarrow>
           1 \<le> func_start s \<and> func_start s \<le> int (length seen)
           \<and> is_signature (seen ! nat (func_start s - 1))
           \<and> brace_count s = depth (drop (nat (func_start s - 1)) seen)
           \<and> stays_open (counted (seen ! nat (func_start s - 1))) (drop (nat (func_start s)) seen)))"

section \<open>The report\<close>

definition sort_by_length_desc :: "func_tuple list \<Rightarrow> func_tuple list" where
  \<comment> \<open>\<^verbatim>\<open>all_functions.sort(key=lambda x: x[2], reverse=True)\<close>: a stable sort, and
      \<^verbatim>\<open>reverse=True\<close> keeps the order of equal keys\<close>
  "sort_by_length_desc xs = sort_key (\<lambda>x. - length_of x) xs"

definition entry_line :: "int \<times> func_tuple \<Rightarrow> string" where
  \<comment> \<open>\<^verbatim>\<open>f"{i}. {name} ({path}:{start}) - {length} lines"\<close>\<close>
  "entry_line e =
     (case e of (i, (name, start, len, path)) \<Rightarrow>
        str i @ ''. '' @ name @ '' ('' @ path @ '':'' @ str start @ '') - '' @ str len @ '' lines'')"

definition count_line :: "int \<Rightarrow> string" where
  \<comment> \<open>\<^verbatim>\<open>f"\nFound {len(long_funcs)} functions exceeding 150 lines"\<close>\<close>
  "count_line n = CHR 10 # ''Found '' @ str n @ '' functions exceeding 150 lines''"

definition collect :: "file_system \<Rightarrow> string list \<Rightarrow> func_tuple list" where
  \<comment> \<open>the loop over \<^verbatim>\<open>src_dir.rglob('*.c')\<close> that extends \<^verbatim>\<open>all_functions\<close>\<close>
  "collect fs c_files = concat (map (find_functions fs) c_files)"

text \<open>
  \<^verbatim>\<open>main\<close> returns the arguments of its \<^verbatim>\<open>print\<close> calls, in order, and the argument of
  \<^verbatim>\<open>sys.exit\<close>. The traversal \<^verbatim>\<open>src_dir.rglob('*.c')\<close> is a parameter: the list of paths
  that it yields for a directory.
\<close>

definition main :: "file_system \<Rightarrow> (string \<Rightarrow> string list) \<Rightarrow> string list \<Rightarrow> string list \<times> int" where
  "main fs rglob argv =
     (if length argv < 2 then
        ([''Usage: find_longest_functions.py <src_directory>''], 1)
      else
        (let src_dir = argv ! 1;
             all_functions = sort_by_length_desc (collect fs (rglob src_dir));
             report = ''Top 5 longest functions:'' #
                      map entry_line (enumerate_from 1 (take 5 all_functions));
             long_funcs = filter (\<lambda>f. length_of f > 150) all_functions
         in if long_funcs \<noteq> [] then
              (report @ [count_line (int (length long_funcs))], 1)
            else (report, 0)))"

section \<open>Example inputs\<close>

definition short_file :: "string list" where
  "short_file = [''int f() {'', ''  return 0;'', ''}'']"

definition long_file :: "string list" where
  \<comment> \<open>a function of 152 lines\<close>
  "long_file = ''int big(void) {'' # replicate 150 ''  x = x + 1;'' @ [''}'']"

definition sized_file :: "nat \<Rightarrow> string list" where
  \<comment> \<open>a function of \<open>n + 2\<close> lines\<close>
  "sized_file n = ''void work(void) {'' # replicate n ''  step();'' @ [''}'']"

definition two_file :: "string list" where
  "two_file = [''int f() {'', ''}'', [], ''static char *g(int a)'', ''{'', ''  return 0;'', ''}'']"

definition one_file :: "string list" where
  "one_file = [''#include <stdio.h>'', [],
               ''int f(int a) {'', ''  if (a) {'', ''    // }'', ''  }'', ''  return 0;'', ''}'',
               [], ''int x;'']"

definition open_file :: "string list" where
  \<comment> \<open>the braces of \<^verbatim>\<open>g\<close> are not closed\<close>
  "open_file = [''int f() {'', ''}'', ''int g() {'', ''  if (x) {'', ''  }'']"

definition example_fs :: file_system where
  "example_fs p =
     (if p = ''short.c'' then Some short_file
      else if p = ''one.c'' then Some one_file
      else if p = ''open.c'' then Some open_file
      else if p = ''two.c'' then Some two_file
      else if p = ''long.c'' then Some long_file
      else if p = ''s1.c'' then Some (sized_file 1)
      else if p = ''s2.c'' then Some (sized_file 2)
      else if p = ''s3.c'' then Some (sized_file 3)
      else if p = ''s4.c'' then Some (sized_file 4)
      else if p = ''s5.c'' then Some (sized_file 5)
      else if p = ''s6.c'' then Some (sized_file 6)
      else None)"

definition example_rglob :: "string \<Rightarrow> string list" where
  "example_rglob d =
     (if d = ''six'' then [''s3.c'', ''s1.c'', ''s6.c'', ''s2.c'', ''s5.c'', ''s4.c'']
      else if d = ''big'' then [''short.c'', ''long.c'']
      else if d = ''small'' then [''short.c'']
      else [])"

section \<open>The signature heuristic on examples\<close>

lemma func_pattern_match_examples:
  "func_pattern_match ''int main(int argc, char **argv) {'' = Some ''main''"
  "func_pattern_match ''static void *worker(void *arg)'' = Some ''worker''"
  "func_pattern_match ''static helper(int x) {'' = Some ''helper''"
  "func_pattern_match ''else if (x) {'' = Some ''if''"
  "func_pattern_match ''typedef foo(int x)'' = Some ''foo''"
  "func_pattern_match ''int f(void);'' = None"
  "func_pattern_match ''int f() {}'' = None"
  "func_pattern_match ''if (x) {'' = None"
  "func_pattern_match ''int (*handler)(int)'' = None"
  "func_pattern_match ''return f(x);'' = None"
  by code_simp+

section \<open>The signature heuristic matches the pattern\<close>

lemma char_class_simps [simp]: "isspace (CHR 10)" "\<not> isspace CHR ''{''" "\<not> isspace CHR ''(''"
  "\<not> isspace CHR ''*''" "\<not> isword CHR ''(''" "\<not> isword CHR ''*''" "\<not> isword CHR ''{''"
  by (simp_all add: isspace_def isword_def)

lemma word_not_space: "isword c \<Longrightarrow> \<not> isspace c"
  by (auto simp: isword_def isspace_def Let_def)

lemma tail_shapeI:
  "(\<forall>c \<in> set sp. isspace c) \<Longrightarrow> br = [] \<or> br = ''{'' \<Longrightarrow> nl = [] \<or> nl = [CHR 10] \<Longrightarrow>
   tail_shape (sp @ br @ nl)"
  unfolding tail_shape_def by blast

lemma spaces_takeWhile: "\<forall>c \<in> set (takeWhile isspace s). isspace c"
  by (auto dest: set_takeWhileD)

lemma match_tail_imp_shape:
  assumes "match_tail s"
  shows "tail_shape s"
proof -
  define tw r where "tw = takeWhile isspace s" and "r = dropWhile isspace s"
  have s: "s = tw @ r" by (simp add: tw_def r_def)
  have sp: "\<forall>c \<in> set tw. isspace c" unfolding tw_def by (rule spaces_takeWhile)
  from assms have "r = [] \<or> r = ''{'' \<or> r = [CHR ''{'', CHR 10]"
    by (simp add: match_tail_def Let_def r_def)
  then consider "r = [] @ []" | "r = ''{'' @ []" | "r = ''{'' @ [CHR 10]" by auto
  then show ?thesis
  proof cases
    case 1
    show ?thesis unfolding s 1 by (rule tail_shapeI [OF sp]) simp_all
  next
    case 2
    show ?thesis unfolding s 2 by (rule tail_shapeI [OF sp]) simp_all
  next
    case 3
    show ?thesis unfolding s 3 by (rule tail_shapeI [OF sp]) simp_all
  qed
qed

lemma span_run:
  "\<forall>x \<in> set xs. P x \<Longrightarrow> ys = [] \<or> \<not> P (hd ys) \<Longrightarrow>
   takeWhile P (xs @ ys) = xs \<and> dropWhile P (xs @ ys) = ys"
  by (cases ys) (simp_all add: takeWhile_append2 dropWhile_append2)

lemma shape_imp_match_tail:
  assumes "tail_shape s"
  shows "match_tail s"
proof -
  from assms obtain sp br nl where s: "s = sp @ br @ nl" and sp: "\<forall>c \<in> set sp. isspace c"
    and br: "br = [] \<or> br = ''{''" and nl: "nl = [] \<or> nl = [CHR 10]"
    unfolding tail_shape_def by blast
  from sp have d: "dropWhile isspace s = dropWhile isspace (br @ nl)"
    unfolding s by (simp add: dropWhile_append2)
  from br nl consider "br @ nl = []" | "br @ nl = [CHR 10]" | "br @ nl = ''{''"
    | "br @ nl = [CHR ''{'', CHR 10]" by auto
  then show ?thesis
  proof cases
    case 1 then show ?thesis unfolding match_tail_def d by simp
  next
    case 2 then show ?thesis unfolding match_tail_def d by simp
  next
    case 3 then show ?thesis unfolding match_tail_def d by simp
  next
    case 4 then show ?thesis unfolding match_tail_def d by simp
  qed
qed

lemma match_tail_iff: "match_tail s \<longleftrightarrow> tail_shape s"
  using match_tail_imp_shape shape_imp_match_tail by blast

lemma args_shapeI:
  "(\<forall>c \<in> set sp. isspace c) \<Longrightarrow> CHR '')'' \<notin> set args \<Longrightarrow> tail_shape rest \<Longrightarrow>
   args_shape (sp @ ''('' @ args @ '')'' @ rest)"
  unfolding args_shape_def by blast

lemma match_args_imp_shape:
  assumes "match_args s"
  shows "args_shape s"
proof -
  define sp where "sp = takeWhile isspace s"
  have sp: "\<forall>c \<in> set sp. isspace c" unfolding sp_def by (rule spaces_takeWhile)
  from assms obtain r where r: "dropWhile isspace s = CHR ''('' # r"
    by (auto simp: match_args_def split: list.splits if_splits)
  define args where "args = takeWhile (\<lambda>x. x \<noteq> CHR '')'') r"
  from assms r obtain x t where t: "dropWhile (\<lambda>x. x \<noteq> CHR '')'') r = x # t" and rest: "match_tail t"
    by (auto simp: match_args_def split: list.splits)
  from t have "dropWhile (\<lambda>x. x \<noteq> CHR '')'') r \<noteq> []" by simp
  from hd_dropWhile [OF this] t have x: "x = CHR '')''" by simp
  have "r = args @ x # t" unfolding args_def t [symmetric] by simp
  with r x have s: "s = sp @ ''('' @ args @ '')'' @ t"
    unfolding sp_def by (metis append_Cons append_Nil takeWhile_dropWhile_id)
  have "CHR '')'' \<notin> set args" unfolding args_def by (auto dest: set_takeWhileD)
  with sp rest show ?thesis unfolding s by (intro args_shapeI) (simp_all add: match_tail_iff)
qed

lemma shape_imp_match_args:
  assumes "args_shape s"
  shows "match_args s"
proof -
  from assms obtain sp args rest where s: "s = sp @ ''('' @ args @ '')'' @ rest"
    and sp: "\<forall>c \<in> set sp. isspace c" and args: "CHR '')'' \<notin> set args" and rest: "tail_shape rest"
    unfolding args_shape_def by blast
  from sp have a: "dropWhile isspace s = CHR ''('' # args @ '')'' @ rest"
    unfolding s by (simp add: dropWhile_append2)
  from args have "\<forall>x \<in> set args. x \<noteq> CHR '')''" by auto
  from span_run [OF this, of "'')'' @ rest"]
  have b: "dropWhile (\<lambda>x. x \<noteq> CHR '')'') (args @ '')'' @ rest) = CHR '')'' # rest"
    by simp
  from rest show ?thesis unfolding match_args_def a using b by (simp add: match_tail_iff)
qed

lemma match_args_iff: "match_args s \<longleftrightarrow> args_shape s"
  using match_args_imp_shape shape_imp_match_args by blast

lemma decl_shapeI:
  "ty \<noteq> [] \<Longrightarrow> (\<forall>c \<in> set ty. isword c) \<Longrightarrow> sp \<noteq> [] \<Longrightarrow> (\<forall>c \<in> set sp. isspace c) \<Longrightarrow>
   star = [] \<or> star = ''*'' \<Longrightarrow> name \<noteq> [] \<Longrightarrow> (\<forall>c \<in> set name. isword c) \<Longrightarrow> args_shape rest \<Longrightarrow>
   decl_shape (ty @ sp @ star @ name @ rest) name"
  unfolding decl_shape_def by blast

lemma words_takeWhile: "\<forall>c \<in> set (takeWhile isword s). isword c"
  by (auto dest: set_takeWhileD)

lemma match_decl_unfold:
  "match_decl s = Some name \<longleftrightarrow>
     takeWhile isword s \<noteq> [] \<and> dropWhile isspace (dropWhile isword s) \<noteq> dropWhile isword s
     \<and> name = takeWhile isword (unstar (dropWhile isspace (dropWhile isword s)))
     \<and> name \<noteq> []
     \<and> match_args (dropWhile isword (unstar (dropWhile isspace (dropWhile isword s))))"
  by (auto simp: match_decl_def Let_def unstar_def)

lemma unstar_split: "\<exists>star. (star = [] \<or> star = ''*'') \<and> r = star @ unstar r"
  by (cases r) (auto simp: unstar_def)

lemma match_decl_imp_shape:
  assumes "match_decl s = Some name"
  shows "decl_shape s name"
proof -
  define ty r1 r2 r3 sp
    where "ty = takeWhile isword s" and "r1 = dropWhile isword s"
      and "r2 = dropWhile isspace r1" and "r3 = unstar r2" and "sp = takeWhile isspace r1"
  from assms have ty: "ty \<noteq> []" and r21: "r2 \<noteq> r1" and name: "name = takeWhile isword r3"
    and ne: "name \<noteq> []" and args: "match_args (dropWhile isword r3)"
    unfolding match_decl_unfold ty_def r1_def r2_def r3_def by blast+
  have s: "s = ty @ r1" by (simp add: ty_def r1_def)
  have r1: "r1 = sp @ r2" by (simp add: sp_def r2_def)
  with r21 have sp: "sp \<noteq> []" by auto
  from unstar_split [of r2] obtain star where star: "star = [] \<or> star = ''*''" and r2: "r2 = star @ r3"
    unfolding r3_def by blast
  have r3: "r3 = name @ dropWhile isword r3" by (simp add: name)
  have "decl_shape (ty @ sp @ star @ name @ dropWhile isword r3) name"
    using ty sp star ne args
    by (intro decl_shapeI) (simp_all add: ty_def sp_def name words_takeWhile spaces_takeWhile match_args_iff)
  moreover have "s = ty @ sp @ star @ name @ dropWhile isword r3"
    using s r1 r2 r3 by simp
  ultimately show ?thesis by simp
qed

lemma args_shape_head: "args_shape rest \<Longrightarrow> rest \<noteq> [] \<and> \<not> isword (hd rest)"
proof -
  assume "args_shape rest"
  then obtain sp t where r: "rest = sp @ CHR ''('' # t" and sp: "\<forall>c \<in> set sp. isspace c"
    unfolding args_shape_def by auto
  show ?thesis
  proof (cases sp)
    case Nil
    with r show ?thesis by simp
  next
    case (Cons c cs)
    with sp have "isspace c" by simp
    then have "\<not> isword c" using word_not_space by blast
    with r Cons show ?thesis by simp
  qed
qed

lemma shape_imp_match_decl:
  assumes "decl_shape s name"
  shows "match_decl s = Some name"
proof -
  from assms obtain ty sp star rest where s: "s = ty @ sp @ star @ name @ rest"
    and ty: "ty \<noteq> []" "\<forall>c \<in> set ty. isword c" and sp: "sp \<noteq> []" "\<forall>c \<in> set sp. isspace c"
    and star: "star = [] \<or> star = ''*''" and name: "name \<noteq> []" "\<forall>c \<in> set name. isword c"
    and args: "args_shape rest"
    unfolding decl_shape_def by blast
  from sp have "\<not> isword (hd (sp @ star @ name @ rest))"
    using word_not_space by (cases sp) auto
  with span_run [OF ty(2), of "sp @ star @ name @ rest"]
  have a: "takeWhile isword s = ty" "dropWhile isword s = sp @ star @ name @ rest"
    unfolding s by simp_all
  from name have hn: "isword (hd name)" by (cases name) simp_all
  with star name(1) have "\<not> isspace (hd (star @ name @ rest))"
    using word_not_space by (cases name) auto
  with span_run [OF sp(2), of "star @ name @ rest"]
  have b: "dropWhile isspace (sp @ star @ name @ rest) = star @ name @ rest" by simp
  from sp(1) have c: "star @ name @ rest \<noteq> sp @ star @ name @ rest" by simp
  from star hn name(1) have d: "unstar (star @ name @ rest) = name @ rest"
    by (cases name) (auto simp: unstar_def)
  from args_shape_head [OF args] span_run [OF name(2), of rest]
  have e: "takeWhile isword (name @ rest) = name" "dropWhile isword (name @ rest) = rest"
    by simp_all
  from ty(1) name(1) args show ?thesis
    unfolding match_decl_unfold a b d e using c by (simp add: match_args_iff)
qed

lemma match_decl_iff: "match_decl s = Some name \<longleftrightarrow> decl_shape s name"
  using match_decl_imp_shape shape_imp_match_decl by blast

lemma static_word: "\<forall>c \<in> set ''static''. isword c"
  by (simp add: isword_def)

lemma decl_shape_head: "decl_shape r n \<Longrightarrow> r \<noteq> [] \<and> isword (hd r)"
  unfolding decl_shape_def by (auto simp: neq_Nil_conv)

lemma match_args_head: "match_args q \<Longrightarrow> \<exists>r. dropWhile isspace q = CHR ''('' # r"
  by (auto simp: match_args_def split: list.splits if_splits)

lemma static_excludes:
  assumes whole: "match_decl (''static'' @ sp @ r) = Some name"
    and sp: "sp \<noteq> []" "\<forall>c \<in> set sp. isspace c"
    and part: "match_decl r = Some n"
  shows False
proof -
  from part have hd: "r \<noteq> []" "isword (hd r)"
    using decl_shape_head match_decl_iff by blast+
  from sp have "\<not> isword (hd (sp @ r))" using word_not_space by (cases sp) auto
  with span_run [OF static_word, of "sp @ r"]
  have a: "dropWhile isword (''static'' @ sp @ r) = sp @ r" by simp
  from hd have "\<not> isspace (hd r)" using word_not_space by blast
  with span_run [OF sp(2), of r] have b: "dropWhile isspace (sp @ r) = r" by simp
  from hd have c: "unstar r = r" by (cases r) (auto simp: unstar_def)
  from whole have "match_args (dropWhile isword r)"
    unfolding match_decl_unfold a b c by blast
  then obtain t where t: "dropWhile isspace (dropWhile isword r) = CHR ''('' # t"
    using match_args_head by blast
  from part have "takeWhile isword (unstar (dropWhile isspace (dropWhile isword r))) \<noteq> []"
    unfolding match_decl_unfold by blast
  then show False unfolding t by (simp add: unstar_def)
qed

lemma length_static: "length ''static'' = 6"
  by simp

lemma startswith_static: "startswith s ''static'' \<longleftrightarrow> (\<exists>r. s = ''static'' @ r)"
proof
  assume "startswith s ''static''"
  then have "take 6 s = ''static''" unfolding startswith_def length_static .
  then have "s = ''static'' @ drop 6 s" by (metis append_take_drop_id)
  then show "\<exists>r. s = ''static'' @ r" ..
next
  assume "\<exists>r. s = ''static'' @ r"
  then show "startswith s ''static''" by (auto simp: startswith_def)
qed

lemma func_pattern_match_static:
  "static_taken s \<Longrightarrow> func_pattern_match s = match_decl (dropWhile isspace (drop 6 s))"
  by (auto simp: func_pattern_match_def static_taken_def Let_def split: option.splits)

lemma func_pattern_match_plain:
  "\<not> static_taken s \<Longrightarrow> func_pattern_match s = match_decl s"
  by (auto simp: func_pattern_match_def static_taken_def Let_def split: option.splits)

lemma static_taken_split:
  assumes "static_taken s"
  obtains sp n where "s = ''static'' @ sp @ dropWhile isspace (drop 6 s)" "sp \<noteq> []"
    "\<forall>c \<in> set sp. isspace c" "match_decl (dropWhile isspace (drop 6 s)) = Some n"
proof -
  define sp where "sp = takeWhile isspace (drop 6 s)"
  from assms obtain r where "s = ''static'' @ r" unfolding static_taken_def startswith_static by blast
  then have s: "s = ''static'' @ sp @ dropWhile isspace (drop 6 s)"
    by (simp add: sp_def)
  from assms have "sp \<noteq> []" unfolding sp_def static_taken_def
    by (metis append_Nil takeWhile_dropWhile_id)
  moreover have "\<forall>c \<in> set sp. isspace c" unfolding sp_def by (rule spaces_takeWhile)
  moreover from assms obtain n where "match_decl (dropWhile isspace (drop 6 s)) = Some n"
    unfolding static_taken_def by blast
  ultimately show ?thesis using s that by blast
qed

text \<open>
  The function \<open>func_pattern_match\<close> returns \<open>Some name\<close> exactly on the strings that the
  pattern matches with \<open>name\<close> as group 3.
\<close>

lemma func_pattern_match_iff:
  "func_pattern_match s = Some name \<longleftrightarrow> pattern_shape s name"
proof
  assume m: "func_pattern_match s = Some name"
  show "pattern_shape s name"
  proof (cases "static_taken s")
    case True
    then obtain sp n where s: "s = ''static'' @ sp @ dropWhile isspace (drop 6 s)" "sp \<noteq> []"
      "\<forall>c \<in> set sp. isspace c" by (rule static_taken_split)
    from m True have "decl_shape (dropWhile isspace (drop 6 s)) name"
      by (simp add: func_pattern_match_static match_decl_iff)
    with s show ?thesis unfolding pattern_shape_def by blast
  next
    case False
    with m have "match_decl s = Some name" by (simp add: func_pattern_match_plain)
    then show ?thesis by (simp add: pattern_shape_def match_decl_iff)
  qed
next
  assume "pattern_shape s name"
  then consider (plain) "decl_shape s name"
    | (static) sp rest where "s = ''static'' @ sp @ rest" "sp \<noteq> []" "\<forall>c \<in> set sp. isspace c"
        "decl_shape rest name"
    unfolding pattern_shape_def by blast
  then show "func_pattern_match s = Some name"
  proof cases
    case plain
    then have whole: "match_decl s = Some name" by (simp add: match_decl_iff)
    show ?thesis
    proof (cases "static_taken s")
      case True
      then obtain sp n where s: "s = ''static'' @ sp @ dropWhile isspace (drop 6 s)" "sp \<noteq> []"
        "\<forall>c \<in> set sp. isspace c" "match_decl (dropWhile isspace (drop 6 s)) = Some n"
        by (rule static_taken_split)
      from whole s(1) have "match_decl (''static'' @ sp @ dropWhile isspace (drop 6 s)) = Some name"
        by simp
      from static_excludes [OF this s(2,3,4)] show ?thesis ..
    next
      case False
      with whole show ?thesis by (simp add: func_pattern_match_plain)
    qed
  next
    case static
    from static(4) have "\<not> isspace (hd rest)"
      using decl_shape_head word_not_space by blast
    with span_run [OF static(3), of rest] have d: "dropWhile isspace (sp @ rest) = rest" by simp
    from static(4) have md: "match_decl rest = Some name" by (simp add: match_decl_iff)
    from static(2) have "rest \<noteq> sp @ rest" by simp
    with static(1) d md have "static_taken s"
      by (simp add: static_taken_def startswith_def)
    with static(1) d md show ?thesis
      by (simp add: func_pattern_match_static)
  qed
qed

section \<open>Decimal numbers contain no newline\<close>

lemma digit_char_not_newline: "k < 10 \<Longrightarrow> char_of (48 + k :: nat) \<noteq> CHR 10"
proof
  assume k: "k < 10" and eq: "char_of (48 + k) = CHR 10"
  have "(of_char (char_of (48 + k)) :: nat) = (48 + k) mod 256" by (rule of_char_of)
  also have "(of_char (char_of (48 + k)) :: nat) = of_char (CHR 10)" by (simp only: eq)
  finally have "(48 + k) mod 256 = (10::nat)" by simp
  with k show False by simp
qed

lemma digits_no_newline: "digits n \<noteq> [] \<and> CHR 10 \<notin> set (digits n)"
proof (induction n rule: digits.induct)
  case (1 n)
  show ?case
  proof (cases "n < 10")
    case True
    with digit_char_not_newline [of n] show ?thesis by (simp add: digits.simps [of n])
  next
    case False
    with 1 digit_char_not_newline [of "n mod 10"] show ?thesis
      by (simp add: digits.simps [of n])
  qed
qed

lemma str_no_newline: "str n \<noteq> [] \<and> CHR 10 \<notin> set (str n)"
  using digits_no_newline by (simp add: str_def)

section \<open>The sort of the aggregator\<close>

lemma sorted_desc_iff:
  "sorted (map (\<lambda>x. - length_of x) xs) = sorted_wrt (\<lambda>a b. length_of b \<le> length_of a) xs"
  by (simp add: sorted_wrt_map)

lemma desc_sort_by_length_desc:
  "sorted_wrt (\<lambda>a b. length_of b \<le> length_of a) (sort_by_length_desc xs)"
  unfolding sort_by_length_desc_def sorted_desc_iff [symmetric] by (rule sorted_sort_key)

lemma set_sort_by_length_desc: "set (sort_by_length_desc xs) = set xs"
  by (simp add: sort_by_length_desc_def)

lemma length_sort_by_length_desc: "length (sort_by_length_desc xs) = length xs"
  by (simp add: sort_by_length_desc_def)

lemma filter_long_sorted:
  "length (filter (\<lambda>f. 150 < length_of f) (sort_by_length_desc xs)) =
   length (filter (\<lambda>f. 150 < length_of f) xs)"
  by (simp add: sort_by_length_desc_def filter_sort)

text \<open>
  Claim C6. The sort puts the records in descending order of length, keeps exactly the
  records it was given, and keeps the records of any one length in the order in which
  they were discovered; so a list that is already in descending order of length comes
  back unchanged, and sorting twice is sorting once.
\<close>

theorem sort_is_stable_descending:
  "sorted_wrt (\<lambda>a b. length_of b \<le> length_of a) (sort_by_length_desc xs)
   \<and> mset (sort_by_length_desc xs) = mset xs
   \<and> (\<forall>k. filter (\<lambda>x. length_of x = k) (sort_by_length_desc xs) =
           filter (\<lambda>x. length_of x = k) xs)
   \<and> (sorted_wrt (\<lambda>a b. length_of b \<le> length_of a) xs \<longrightarrow> sort_by_length_desc xs = xs)
   \<and> sort_by_length_desc (sort_by_length_desc xs) = sort_by_length_desc xs"
proof -
  have perm: "mset (sort_by_length_desc xs) = mset xs"
    by (simp add: sort_by_length_desc_def)
  have stable: "filter (\<lambda>x. length_of x = k) (sort_by_length_desc xs) =
                filter (\<lambda>x. length_of x = k) xs" for k
    using sort_key_stable [of "\<lambda>x. - length_of x" "- k" xs]
    by (simp add: sort_by_length_desc_def)
  have fixed: "sort_by_length_desc ys = ys"
    if "sorted_wrt (\<lambda>a b. length_of b \<le> length_of a) ys" for ys
    using that unfolding sort_by_length_desc_def sorted_desc_iff [symmetric]
    by (rule sort_key_id_if_sorted)
  from desc_sort_by_length_desc [of xs] perm stable fixed [of xs]
    fixed [OF desc_sort_by_length_desc [of xs]]
  show ?thesis by blast
qed

theorem sort_is_stable_descending_witness:
  "sort_by_length_desc [(''a'', 1, 3, ''p.c''), (''b'', 5, 7, ''p.c''), (''c'', 20, 3, ''q.c'')]
     = [(''b'', 5, 7, ''p.c''), (''a'', 1, 3, ''p.c''), (''c'', 20, 3, ''q.c'')]
   \<and> filter (\<lambda>x. length_of x = 3)
        (sort_by_length_desc [(''a'', 1, 3, ''p.c''), (''b'', 5, 7, ''p.c''), (''c'', 20, 3, ''q.c'')])
     = [(''a'', 1, 3, ''p.c''), (''c'', 20, 3, ''q.c'')]
   \<and> sorted_wrt (\<lambda>a b. length_of b \<le> length_of a) [(''b'', 5, 7, ''p.c''), (''a'', 1, 3, ''p.c'')]
   \<and> sort_by_length_desc [(''b'', 5, 7, ''p.c''), (''a'', 1, 3, ''p.c'')]
     = [(''b'', 5, 7, ''p.c''), (''a'', 1, 3, ''p.c'')]"
  using sort_is_stable_descending
          [of "[(''a'', 1, 3, ''p.c''), (''b'', 5, 7, ''p.c''), (''c'', 20, 3, ''q.c'')]"]
        sort_is_stable_descending [of "[(''b'', 5, 7, ''p.c''), (''a'', 1, 3, ''p.c'')]"]
  by (simp add: sort_by_length_desc_def length_of_def)

section \<open>Files that cannot be read\<close>

text \<open>
  Claim C8. When opening or reading the file raises, \<open>find_functions\<close> returns the empty
  list (the result is a list, not an error), and the collection over the directory is
  what it would be without that file.
\<close>

theorem unreadable_file_is_skipped:
  "fs file_path = None \<Longrightarrow>
     find_functions fs file_path = []
     \<and> collect fs (before @ file_path # after) = collect fs (before @ after)"
  by (simp add: find_functions_def collect_def)

theorem unreadable_file_is_skipped_witness:
  "example_fs ''missing.c'' = None
   \<and> find_functions example_fs ''missing.c'' = []
   \<and> collect example_fs ([''short.c''] @ ''missing.c'' # []) = [(''f'', 1, 3, ''short.c'')]"
proof -
  have h: "example_fs ''missing.c'' = None" by (simp add: example_fs_def)
  have c: "collect example_fs [''short.c''] = [(''f'', 1, 3, ''short.c'')]" by code_simp
  from unreadable_file_is_skipped [of example_fs "''missing.c''" "[''short.c'']" "[]"] h c
  show ?thesis by simp
qed

section \<open>Exit status and report\<close>

lemma length_enumerate_from: "length (enumerate_from n xs) = length xs"
  by (induction xs arbitrary: n) simp_all

lemma nth_enumerate_from:
  "k < length xs \<Longrightarrow> enumerate_from n xs ! k = (n + int k, xs ! k)"
proof (induction xs arbitrary: n k)
  case Nil
  then show ?case by simp
next
  case (Cons x xs)
  then show ?case by (cases k) simp_all
qed

lemma enumerate_from_append:
  "enumerate_from n (xs @ ys) = enumerate_from n xs @ enumerate_from (n + int (length xs)) ys"
  by (induction xs arbitrary: n) (simp_all add: add.assoc)

lemma entry_line_not_count_line: "entry_line e \<noteq> count_line n"
proof -
  obtain i name start len path where e: "e = (i, (name, start, len, path))"
    by (metis prod.exhaust)
  have "hd (entry_line e) = hd (str i)"
    using str_no_newline [of i] by (simp add: e entry_line_def)
  moreover have "hd (str i) \<noteq> CHR 10"
    using str_no_newline [of i] by (metis hd_in_set)
  moreover have "hd (count_line n) = CHR 10" by (simp add: count_line_def)
  ultimately show ?thesis by metis
qed

lemma count_line_not_in_report:
  "count_line n \<notin> set (''Top 5 longest functions:'' # map entry_line es)"
proof -
  have "count_line n \<noteq> ''Top 5 longest functions:''" by (simp add: count_line_def)
  moreover have "count_line n \<notin> set (map entry_line es)"
    using entry_line_not_count_line [of _ n] by (metis (no_types) imageE list.set_map)
  ultimately show ?thesis by simp
qed


lemma collect_big:
  "collect example_fs (example_rglob ''big'') =
     [(''f'', 1, 3, ''short.c''), (''big'', 1, 152, ''long.c'')]"
  by code_simp

lemma collect_small: "collect example_fs (example_rglob ''small'') = [(''f'', 1, 3, ''short.c'')]"
  by code_simp


lemma sorted_wrt_take_drop:
  "sorted_wrt P xs \<Longrightarrow> sorted_wrt P (take n xs) \<and> (\<forall>r \<in> set (drop n xs). \<forall>q \<in> set (take n xs). P q r)"
proof -
  assume "sorted_wrt P xs"
  then have "sorted_wrt P (take n xs @ drop n xs)" by simp
  then show ?thesis unfolding sorted_wrt_append by blast
qed

text \<open>
  Claim C7. With a directory argument, the output is the header line, then one entry for
  each of the first five records of the sorted list (all of them when there are at most
  five), then the count line if there is one. The entries shown are \<open>min 5 total\<close> many,
  in descending order of length; the records left out are the rest of the collected
  records, and none of them is longer than a record shown. Entry \<open>k\<close> (counted from 0)
  is \<^verbatim>\<open>"{k+1}. {name} ({path}:{start}) - {length} lines"\<close>.
\<close>

theorem report_top_five:
  "2 \<le> length argv \<Longrightarrow>
   fst (main fs rglob argv) =
     ''Top 5 longest functions:'' #
     map entry_line (enumerate_from 1 (take 5 (sort_by_length_desc (collect fs (rglob (argv ! 1)))))) @
     (if \<exists>f \<in> set (collect fs (rglob (argv ! 1))). 150 < length_of f
      then [count_line (int (length (filter (\<lambda>f. 150 < length_of f) (collect fs (rglob (argv ! 1))))))]
      else [])
   \<and> length (take 5 (sort_by_length_desc (collect fs (rglob (argv ! 1))))) =
       min 5 (length (collect fs (rglob (argv ! 1))))
   \<and> mset (take 5 (sort_by_length_desc (collect fs (rglob (argv ! 1))))) +
       mset (drop 5 (sort_by_length_desc (collect fs (rglob (argv ! 1))))) =
       mset (collect fs (rglob (argv ! 1)))
   \<and> sorted_wrt (\<lambda>a b. length_of b \<le> length_of a)
        (take 5 (sort_by_length_desc (collect fs (rglob (argv ! 1)))))
   \<and> (\<forall>r \<in> set (drop 5 (sort_by_length_desc (collect fs (rglob (argv ! 1))))).
        \<forall>q \<in> set (take 5 (sort_by_length_desc (collect fs (rglob (argv ! 1))))).
          length_of r \<le> length_of q)
   \<and> (\<forall>k < length (take 5 (sort_by_length_desc (collect fs (rglob (argv ! 1))))).
        fst (main fs rglob argv) ! (k + 1) =
          (case take 5 (sort_by_length_desc (collect fs (rglob (argv ! 1)))) ! k of
             (name, start, len, path) \<Rightarrow>
               str (1 + int k) @ ''. '' @ name @ '' ('' @ path @ '':'' @ str start @ '') - '' @
               str len @ '' lines''))"
proof -
  assume argv: "2 \<le> length argv"
  let ?recs = "collect fs (rglob (argv ! 1))"
  let ?all = "sort_by_length_desc ?recs"
  let ?shown = "take 5 ?all"
  let ?long = "filter (\<lambda>f. 150 < length_of f) ?all"
  have long_iff: "?long \<noteq> [] \<longleftrightarrow> (\<exists>f \<in> set ?recs. 150 < length_of f)"
    by (auto simp: filter_empty_conv set_sort_by_length_desc)
  have out: "fst (main fs rglob argv) =
     ''Top 5 longest functions:'' # map entry_line (enumerate_from 1 ?shown) @
     (if \<exists>f \<in> set ?recs. 150 < length_of f
      then [count_line (int (length (filter (\<lambda>f. 150 < length_of f) ?recs)))] else [])"
    using argv long_iff by (simp add: main_def Let_def filter_long_sorted)
  have len: "length ?shown = min 5 (length ?recs)"
    by (simp add: length_sort_by_length_desc)
  have "mset (?shown @ drop 5 ?all) = mset ?all" by (simp only: append_take_drop_id)
  also have "\<dots> = mset ?recs" by (simp add: sort_by_length_desc_def)
  finally have perm: "mset ?shown + mset (drop 5 ?all) = mset ?recs" by (simp only: mset_append)
  have ord: "sorted_wrt (\<lambda>a b. length_of b \<le> length_of a) ?shown
         \<and> (\<forall>r \<in> set (drop 5 ?all). \<forall>q \<in> set ?shown. length_of r \<le> length_of q)"
    using desc_sort_by_length_desc [of ?recs] by (rule sorted_wrt_take_drop)
  have fmt: "fst (main fs rglob argv) ! (k + 1) =
          (case ?shown ! k of
             (name, start, len, path) \<Rightarrow>
               str (1 + int k) @ ''. '' @ name @ '' ('' @ path @ '':'' @ str start @ '') - '' @
               str len @ '' lines'')" if k: "k < length ?shown" for k
  proof -
    have "fst (main fs rglob argv) ! (k + 1) = map entry_line (enumerate_from 1 ?shown) ! k"
      using k by (simp add: out nth_append length_enumerate_from)
    also have "\<dots> = entry_line (1 + int k, ?shown ! k)"
      using k by (simp add: length_enumerate_from nth_enumerate_from)
    finally show ?thesis by (simp add: entry_line_def split: prod.splits)
  qed
  from out len perm ord fmt show ?thesis by blast
qed

lemma collect_six:
  "collect example_fs (example_rglob ''six'') =
     [(''work'', 1, 5, ''s3.c''), (''work'', 1, 3, ''s1.c''), (''work'', 1, 8, ''s6.c''),
      (''work'', 1, 4, ''s2.c''), (''work'', 1, 7, ''s5.c''), (''work'', 1, 6, ''s4.c'')]"
  by code_simp

lemma main_six:
  "main example_fs example_rglob [''prog'', ''six''] =
     ([''Top 5 longest functions:'',
       ''1. work (s6.c:1) - 8 lines'',
       ''2. work (s5.c:1) - 7 lines'',
       ''3. work (s4.c:1) - 6 lines'',
       ''4. work (s3.c:1) - 5 lines'',
       ''5. work (s2.c:1) - 4 lines''], 0)"
  by code_simp

theorem report_top_five_witness:
  "2 \<le> length [''prog'', ''six'']
   \<and> fst (main example_fs example_rglob [''prog'', ''six'']) =
     [''Top 5 longest functions:'',
       ''1. work (s6.c:1) - 8 lines'',
       ''2. work (s5.c:1) - 7 lines'',
       ''3. work (s4.c:1) - 6 lines'',
       ''4. work (s3.c:1) - 5 lines'',
       ''5. work (s2.c:1) - 4 lines'']
   \<and> take 5 (sort_by_length_desc (collect example_fs (example_rglob ([''prog'', ''six''] ! 1)))) =
       [(''work'', 1, 8, ''s6.c''), (''work'', 1, 7, ''s5.c''), (''work'', 1, 6, ''s4.c''),
        (''work'', 1, 5, ''s3.c''), (''work'', 1, 4, ''s2.c'')]
   \<and> drop 5 (sort_by_length_desc (collect example_fs (example_rglob ([''prog'', ''six''] ! 1)))) =
       [(''work'', 1, 3, ''s1.c'')]"
proof -
  have h: "2 \<le> length [''prog'', ''six'']" by simp
  from report_top_five [OF h, of example_fs example_rglob] h show ?thesis
    by (simp add: collect_six sort_by_length_desc_def length_of_def main_six)
qed

section \<open>The loop of the scanner\<close>

lemma scan_from_Nil [simp]: "scan_from fp n s [] = s"
  by (simp add: scan_from_def)

lemma scan_from_Cons [simp]:
  "scan_from fp n s (l # ls) = scan_from fp (n + 1) (loop_body fp s (n, l)) ls"
  by (simp add: scan_from_def)

lemma scan_from_append:
  "scan_from fp n s (xs @ ys) = scan_from fp (n + int (length xs)) (scan_from fp n s xs) ys"
  by (simp add: scan_from_def enumerate_from_append)

lemma loop_body_skipped: "skipped (strip l) \<Longrightarrow> loop_body fp s (i, l) = s"
  by (simp add: loop_body_def)

lemma loop_body_signature:
  "\<not> in_function s \<Longrightarrow> \<not> skipped (strip l) \<Longrightarrow> func_pattern_match (strip l) = Some name \<Longrightarrow>
   \<not> startswith (strip l) ''typedef'' \<Longrightarrow>
   loop_body fp s (i, l) =
     s\<lparr>func_name := name, func_start := i, in_function := True, brace_count := braces (strip l)\<rparr>"
  by (simp add: loop_body_def)

lemma loop_body_outside:
  "\<not> in_function s \<Longrightarrow> \<not> is_signature l \<Longrightarrow> loop_body fp s (i, l) = s"
  by (auto simp: loop_body_def Let_def is_signature_def track_braces_def split: option.splits)

lemma loop_body_inside:
  "in_function s \<Longrightarrow> \<not> skipped (strip l) \<Longrightarrow>
   loop_body fp s (i, l) =
     (if brace_count s + braces (strip l) = 0 then
        s\<lparr>brace_count := 0,
          functions_found := functions_found s @ [(func_name s, func_start s, i - func_start s + 1, fp)],
          in_function := False, func_name := []\<rparr>
      else s\<lparr>brace_count := brace_count s + braces (strip l)\<rparr>)"
  by (simp add: loop_body_def track_braces_def Let_def)

lemma loop_body_cases:
  obtains (skip) "skipped (strip l)" "loop_body fp s (i, l) = s"
  | (start) name where "\<not> in_function s" "is_signature l"
      "loop_body fp s (i, l) =
         s\<lparr>func_name := name, func_start := i, in_function := True, brace_count := braces (strip l)\<rparr>"
  | (outside) "\<not> in_function s" "\<not> is_signature l" "loop_body fp s (i, l) = s"
  | (inside) "in_function s" "\<not> skipped (strip l)" "brace_count s + braces (strip l) \<noteq> 0"
      "loop_body fp s (i, l) = s\<lparr>brace_count := brace_count s + braces (strip l)\<rparr>"
  | (close) "in_function s" "\<not> skipped (strip l)" "brace_count s + braces (strip l) = 0"
      "loop_body fp s (i, l) =
        s\<lparr>brace_count := 0,
          functions_found := functions_found s @ [(func_name s, func_start s, i - func_start s + 1, fp)],
          in_function := False, func_name := []\<rparr>"
proof (cases "skipped (strip l)")
  case True
  then show ?thesis using skip loop_body_skipped by blast
next
  case ns: False
  show ?thesis
  proof (cases "in_function s")
    case True
    with ns show ?thesis using inside close loop_body_inside [of s l fp i] by (cases "brace_count s + braces (strip l) = 0") simp_all
  next
    case nf: False
    show ?thesis
    proof (cases "is_signature l")
      case True
      then obtain name where "func_pattern_match (strip l) = Some name"
        by (auto simp: is_signature_def)
      with True nf ns show ?thesis using start loop_body_signature [of s l name fp i]
        by (simp add: is_signature_def)
    next
      case False
      with nf show ?thesis using outside loop_body_outside by blast
    qed
  qed
qed

lemma placed_mono: "placed n s \<Longrightarrow> n \<le> m \<Longrightarrow> placed m s"
  by (fastforce simp: placed_def)

lemma placed_step:
  assumes "placed n s" "1 \<le> n"
  shows "placed (n + 1) (loop_body fp s (n, l))"
proof (cases rule: loop_body_cases [of l fp s n])
  case skip
  with assms placed_mono [of n s "n + 1"] show ?thesis by simp
next
  case (start name)
  with assms show ?thesis by (fastforce simp: placed_def)
next
  case outside
  with assms placed_mono [of n s "n + 1"] show ?thesis by simp
next
  case inside
  with assms show ?thesis by (fastforce simp: placed_def)
next
  case close
  from assms close(1) have r: "\<forall>r \<in> set (functions_found s). start_of r < func_start s"
    by (fastforce simp: placed_def)
  from assms close(1) show ?thesis
    unfolding close(4) placed_def using r
    by (auto simp: sorted_wrt_append start_of_def length_of_def)
qed

lemma placed_scan_from:
  "placed n s \<Longrightarrow> 1 \<le> n \<Longrightarrow> placed (n + int (length ls)) (scan_from fp n s ls)"
proof (induction ls arbitrary: n s)
  case Nil
  then show ?case by simp
next
  case (Cons l ls)
  from Cons.prems have "placed (n + 1) (loop_body fp s (n, l))" by (rule placed_step)
  from Cons.IH [OF this] Cons.prems(2) show ?case by (simp add: algebra_simps)
qed

lemma placed_scan: "placed (1 + int (length ls)) (scan fp ls)"
  unfolding scan_def by (rule placed_scan_from) (simp_all add: placed_def init_state_def)

lemma increasing_starts_distinct:
  "sorted_wrt (\<lambda>a b. start_of a < start_of b) xs \<Longrightarrow>
   distinct (map (\<lambda>r. (path_of r, start_of r)) xs)"
  by (induction xs) auto

text \<open>
  Claim C9. Every record that \<open>find_functions\<close> returns has a length of at least 1 and
  a start line of at least 1, and no two records of one call have the same path and start
  line.
\<close>

theorem record_invariants:
  "(\<forall>r \<in> set (find_functions fs file_path). 1 \<le> length_of r \<and> 1 \<le> start_of r)
   \<and> distinct (map (\<lambda>r. (path_of r, start_of r)) (find_functions fs file_path))"
proof (cases "fs file_path")
  case None
  then show ?thesis by (simp add: find_functions_def)
next
  case (Some ls)
  have p: "placed (1 + int (length ls)) (scan file_path ls)" by (rule placed_scan)
  then have "\<forall>r \<in> set (functions_found (scan file_path ls)). 1 \<le> length_of r \<and> 1 \<le> start_of r"
    by (fastforce simp: placed_def)
  moreover from p have "distinct (map (\<lambda>r. (path_of r, start_of r)) (functions_found (scan file_path ls)))"
    by (simp add: placed_def increasing_starts_distinct)
  ultimately show ?thesis by (simp add: find_functions_def Some)
qed

lemma find_two:
  "find_functions example_fs ''two.c'' = [(''f'', 1, 2, ''two.c''), (''g'', 4, 4, ''two.c'')]"
  by code_simp

theorem record_invariants_witness:
  "find_functions example_fs ''two.c'' = [(''f'', 1, 2, ''two.c''), (''g'', 4, 4, ''two.c'')]
   \<and> list_all (\<lambda>r. 1 \<le> length_of r \<and> 1 \<le> start_of r) (find_functions example_fs ''two.c'')
   \<and> distinct (map (\<lambda>r. (path_of r, start_of r)) (find_functions example_fs ''two.c''))"
  using record_invariants [of example_fs "''two.c''"] find_two by (simp add: list_all_iff)

text \<open>
  Claim C10. Every record has a length of at least 2: the end line of a function is after
  its start line. A signature line met outside a function opens the function at that line
  and appends no record, whatever its braces are.
\<close>

theorem signature_line_never_closes:
  "(\<forall>r \<in> set (find_functions fs file_path). 2 \<le> length_of r)
   \<and> (\<not> in_function s \<and> is_signature line \<longrightarrow>
        in_function (loop_body fp s (i, line))
        \<and> func_start (loop_body fp s (i, line)) = i
        \<and> functions_found (loop_body fp s (i, line)) = functions_found s)"
proof -
  have "\<forall>r \<in> set (find_functions fs file_path). 2 \<le> length_of r"
  proof (cases "fs file_path")
    case None
    then show ?thesis by (simp add: find_functions_def)
  next
    case (Some ls)
    have "placed (1 + int (length ls)) (scan file_path ls)" by (rule placed_scan)
    then show ?thesis by (simp add: find_functions_def Some placed_def)
  qed
  moreover have "in_function (loop_body fp s (i, line))
        \<and> func_start (loop_body fp s (i, line)) = i
        \<and> functions_found (loop_body fp s (i, line)) = functions_found s"
    if "\<not> in_function s" "is_signature line"
    using that by (cases rule: loop_body_cases [of line fp s i]) (simp_all add: is_signature_def)
  ultimately show ?thesis by blast
qed

theorem signature_line_never_closes_witness:
  "\<not> in_function init_state \<and> is_signature ''int g(void)''
   \<and> braces (strip ''int g(void)'') = 0
   \<and> in_function (loop_body ''a.c'' init_state (1, ''int g(void)''))
   \<and> func_start (loop_body ''a.c'' init_state (1, ''int g(void)'')) = 1
   \<and> functions_found (loop_body ''a.c'' init_state (1, ''int g(void)'')) = []
   \<and> list_all (\<lambda>r. 2 \<le> length_of r) (find_functions example_fs ''two.c'')"
proof -
  have h: "\<not> in_function init_state \<and> is_signature ''int g(void)''" by code_simp
  have b: "braces (strip ''int g(void)'') = 0" by code_simp
  have e: "functions_found init_state = []" by (simp add: init_state_def)
  from signature_line_never_closes [of example_fs "''two.c''" init_state "''int g(void)''" "''a.c''" 1]
    h b e
  show ?thesis by (simp add: list_all_iff)
qed

text \<open>
  Claim C4. A line whose stripped form is empty or starts with \<^verbatim>\<open>//\<close> or \<^verbatim>\<open>#\<close> leaves
  the whole state of the loop as it is, in a function or not: its braces are not added to
  \<open>brace_count\<close>. So the records of a file do not depend on what such a line contains:
  they are the records of the file with that line emptied.
\<close>

theorem skipped_lines_count_nothing:
  "strip line = [] \<or> startswith (strip line) ''//'' \<or> startswith (strip line) ''#'' \<Longrightarrow>
     loop_body fp s (i, line) = s
     \<and> brace_count (loop_body fp s (i, line)) = brace_count s
     \<and> functions_found (scan fp (pre @ line # post)) = functions_found (scan fp (pre @ [] # post))"
proof -
  assume "strip line = [] \<or> startswith (strip line) ''//'' \<or> startswith (strip line) ''#''"
  then have sk: "skipped (strip line)" by (simp add: skipped_def)
  have "skipped (strip [])" by (simp add: skipped_def strip_def)
  with sk have "scan fp (pre @ line # post) = scan fp (pre @ [] # post)"
    by (simp add: scan_def scan_from_append loop_body_skipped)
  with sk show ?thesis by (simp add: loop_body_skipped)
qed

theorem skipped_lines_count_nothing_witness:
  "startswith (strip ''  #define END }'') ''#''
   \<and> in_function (scan ''a.c'' [''int f() {''])
   \<and> loop_body ''a.c'' (scan ''a.c'' [''int f() {'']) (2, ''  #define END }'') =
       scan ''a.c'' [''int f() {'']
   \<and> functions_found (scan ''a.c'' ([''int f() {''] @ ''  #define END }'' # [''}''])) =
       [(''f'', 1, 3, ''a.c'')]"
proof -
  have h: "startswith (strip ''  #define END }'') ''#''" by code_simp
  have i: "in_function (scan ''a.c'' [''int f() {''])" by code_simp
  have e: "functions_found (scan ''a.c'' ([''int f() {''] @ [] # [''}''])) = [(''f'', 1, 3, ''a.c'')]"
    by code_simp
  from skipped_lines_count_nothing
         [of "''  #define END }''" "''a.c''" "scan ''a.c'' [''int f() {'']" 2 "[''int f() {'']" "[''}'']"]
    h i e
  show ?thesis by simp
qed

text \<open>
  Claim C5 says that inside a function the braces of an empty line or of a \<^verbatim>\<open>//\<close> line
  are added to \<open>brace_count\<close>. They are not: after \<^verbatim>\<open>int f() {\<close> the line \<^verbatim>\<open>// }\<close> leaves
  \<open>brace_count\<close> at 1, and the function of the three lines \<^verbatim>\<open>int f() {\<close>, \<^verbatim>\<open>// }\<close>,
  \<^verbatim>\<open>}\<close> is closed on line 3, not on line 2.
\<close>

theorem comment_braces_counterexample:
  "in_function (scan ''a.c'' [''int f() {''])
   \<and> startswith (strip ''// }'') ''//''
   \<and> brace_count (scan ''a.c'' [''int f() {'']) = 1
   \<and> braces (strip ''// }'') = - 1
   \<and> brace_count (loop_body ''a.c'' (scan ''a.c'' [''int f() {'']) (2, ''// }'')) \<noteq>
       brace_count (scan ''a.c'' [''int f() {'']) + braces (strip ''// }'')
   \<and> functions_found (scan ''a.c'' [''int f() {'', ''// }'', ''}'']) = [(''f'', 1, 3, ''a.c'')]"
  by code_simp

text \<open>
  Claim C5 as amended. Inside a function, a line whose stripped form is empty or starts
  with \<^verbatim>\<open>//\<close> is skipped as a preprocessor line is: \<open>brace_count\<close> keeps its value, the
  function stays open and no record is appended.
\<close>

theorem comment_lines_skipped_inside_function:
  "in_function s \<Longrightarrow> strip line = [] \<or> startswith (strip line) ''//'' \<Longrightarrow>
     brace_count (loop_body fp s (i, line)) = brace_count s
     \<and> in_function (loop_body fp s (i, line))
     \<and> functions_found (loop_body fp s (i, line)) = functions_found s"
proof -
  assume inside: "in_function s"
    and "strip line = [] \<or> startswith (strip line) ''//''"
  then have "skipped (strip line)" by (auto simp: skipped_def)
  then have "loop_body fp s (i, line) = s" by (rule loop_body_skipped)
  with inside show ?thesis by simp
qed

theorem comment_lines_skipped_inside_function_witness:
  "in_function (scan ''a.c'' [''int f() {''])
   \<and> startswith (strip ''// }'') ''//''
   \<and> brace_count (loop_body ''a.c'' (scan ''a.c'' [''int f() {'']) (2, ''// }'')) = 1
   \<and> in_function (loop_body ''a.c'' (scan ''a.c'' [''int f() {'']) (2, ''// }''))
   \<and> functions_found (loop_body ''a.c'' (scan ''a.c'' [''int f() {'']) (2, ''// }'')) = []"
proof -
  have h: "in_function (scan ''a.c'' [''int f() {''])" by code_simp
  have c: "startswith (strip ''// }'') ''//''" by code_simp
  have e: "brace_count (scan ''a.c'' [''int f() {'']) = 1
           \<and> functions_found (scan ''a.c'' [''int f() {'']) = []" by code_simp
  from comment_lines_skipped_inside_function
         [of "scan ''a.c'' [''int f() {'']" "''// }''" "''a.c''" 2] h c e
  show ?thesis by simp
qed

section \<open>Functions that close and functions that do not\<close>

lemma scan_outside:
  "\<not> in_function s \<Longrightarrow> \<forall>l \<in> set ls. \<not> is_signature l \<Longrightarrow> scan_from fp n s ls = s"
  by (induction ls arbitrary: n) (simp_all add: loop_body_outside)

lemma depth_Cons: "depth (l # ls) = counted l + depth ls"
  by (simp add: depth_def)

lemma stays_open_Cons:
  "stays_open d (l # ls) \<longleftrightarrow>
     (\<not> skipped (strip l) \<longrightarrow> d + counted l \<noteq> 0) \<and> stays_open (d + counted l) ls"
proof
  assume L: "stays_open d (l # ls)"
  have "\<not> skipped (strip l) \<longrightarrow> d + counted l \<noteq> 0"
    using L [unfolded stays_open_def, rule_format, of 1] by (simp add: depth_def)
  moreover have "stays_open (d + counted l) ls"
    unfolding stays_open_def
  proof (intro ballI impI)
    fix k assume k: "k \<in> {1..length ls}" and ns: "\<not> skipped (strip (ls ! (k - 1)))"
    from k ns L [unfolded stays_open_def, rule_format, of "Suc k"]
    show "d + counted l + depth (take k ls) \<noteq> 0"
      by (simp add: depth_Cons nth_Cons' add.assoc)
  qed
  ultimately show "(\<not> skipped (strip l) \<longrightarrow> d + counted l \<noteq> 0) \<and> stays_open (d + counted l) ls"
    by blast
next
  assume R: "(\<not> skipped (strip l) \<longrightarrow> d + counted l \<noteq> 0) \<and> stays_open (d + counted l) ls"
  show "stays_open d (l # ls)"
    unfolding stays_open_def
  proof (intro ballI impI)
    fix k assume k: "k \<in> {1..length (l # ls)}" and ns: "\<not> skipped (strip ((l # ls) ! (k - 1)))"
    show "d + depth (take k (l # ls)) \<noteq> 0"
    proof (cases "k = 1")
      case True
      with R ns show ?thesis by (simp add: depth_def)
    next
      case False
      with k obtain j where j: "k = Suc j" "j \<in> {1..length ls}"
        by (cases k) auto
      with ns have "\<not> skipped (strip (ls ! (j - 1)))" by (simp add: nth_Cons')
      with R j have "d + counted l + depth (take j ls) \<noteq> 0"
        unfolding stays_open_def by blast
      with j show ?thesis by (simp add: depth_Cons add.assoc)
    qed
  qed
qed

lemma stays_open_Nil: "stays_open d []"
  by (simp add: stays_open_def)

lemma scan_inside:
  "in_function s \<Longrightarrow> stays_open (brace_count s) ls \<Longrightarrow>
   scan_from fp n s ls = s\<lparr>brace_count := brace_count s + depth ls\<rparr>"
proof (induction ls arbitrary: n s)
  case Nil
  then show ?case by (simp add: depth_def)
next
  case (Cons l ls)
  show ?case
  proof (cases "skipped (strip l)")
    case True
    with Cons.prems have "stays_open (brace_count s) ls"
      by (simp add: stays_open_Cons counted_def)
    from Cons.IH [OF Cons.prems(1) this] True show ?thesis
      by (simp add: loop_body_skipped depth_Cons counted_def)
  next
    case False
    with Cons.prems have nz: "brace_count s + braces (strip l) \<noteq> 0"
      and rest: "stays_open (brace_count s + braces (strip l)) ls"
      by (simp_all add: stays_open_Cons counted_def)
    let ?s = "s\<lparr>brace_count := brace_count s + braces (strip l)\<rparr>"
    from False nz Cons.prems(1) have step: "loop_body fp s (n, l) = ?s"
      by (simp add: loop_body_inside)
    have "in_function ?s" "stays_open (brace_count ?s) ls"
      using Cons.prems(1) rest by simp_all
    from Cons.IH [OF this] step False show ?thesis
      by (simp add: depth_Cons counted_def add.assoc)
  qed
qed

lemma counted_unskipped: "\<not> skipped (strip l) \<Longrightarrow> counted l = braces (strip l)"
  by (simp add: counted_def)

lemma depth_append: "depth (xs @ ys) = depth xs + depth ys"
  by (simp add: depth_def)



lemma closing_observed_mono:
  assumes "closing_observed seen r"
  shows "closing_observed (seen @ later) r"
proof -
  from assms have k: "nat (start_of r - 1) < length seen"
    and m: "nat (length_of r - 1) \<le> length seen - nat (start_of r)"
    and s: "nat (start_of r) \<le> length seen"
    by (auto simp: closing_observed_def)
  from m s have tk: "take (nat (length_of r - 1)) (drop (nat (start_of r)) (seen @ later)) =
        take (nat (length_of r - 1)) (drop (nat (start_of r)) seen)"
    by simp
  from k have nth: "(seen @ later) ! nat (start_of r - 1) = seen ! nat (start_of r - 1)"
    by (simp add: nth_append)
  from assms have len: "start_of r + length_of r - 1 \<le> int (length (seen @ later))"
    by (simp add: closing_observed_def)
  from assms len show ?thesis
    unfolding closing_observed_def nth tk by blast
qed

lemma stays_open_snoc:
  "stays_open d (xs @ [l]) \<longleftrightarrow>
     stays_open d xs \<and> (\<not> skipped (strip l) \<longrightarrow> d + depth xs + counted l \<noteq> 0)"
proof (induction xs arbitrary: d)
  case Nil
  show ?case by (simp add: stays_open_Cons stays_open_Nil depth_def)
next
  case (Cons x xs)
  show ?case by (auto simp: stays_open_Cons Cons.IH depth_Cons add.assoc)
qed

lemma nat_int_Suc: "nat (int k + 1) = Suc k"
  by simp

lemma counted_skipped: "skipped (strip l) \<Longrightarrow> counted l = 0"
  by (simp add: counted_def)

lemma tracking_step:
  assumes t: "tracking seen s"
  shows "tracking (seen @ [l]) (loop_body fp s (int (length seen) + 1, l))"
proof -
  let ?n = "int (length seen) + 1"
  have recs: "\<forall>r \<in> set (functions_found s). closing_observed (seen @ [l]) r"
    using t closing_observed_mono by (simp add: tracking_def)
  have inside: "\<exists>k. func_start s = int k + 1 \<and> k < length seen \<and> is_signature (seen ! k)
       \<and> brace_count s = counted (seen ! k) + depth (drop (Suc k) seen)
       \<and> stays_open (counted (seen ! k)) (drop (Suc k) seen)" if i: "in_function s"
  proof -
    let ?k = "nat (func_start s - 1)"
    from t i have fs: "1 \<le> func_start s" "func_start s \<le> int (length seen)"
      and sg: "is_signature (seen ! ?k)"
      and bc: "brace_count s = depth (drop ?k seen)"
      and so: "stays_open (counted (seen ! ?k)) (drop (nat (func_start s)) seen)"
      by (simp_all add: tracking_def)
    from fs have k: "func_start s = int ?k + 1" "?k < length seen" "nat (func_start s) = Suc ?k"
      by auto
    from k(2) have "drop ?k seen = seen ! ?k # drop (Suc ?k) seen"
      by (simp add: Cons_nth_drop_Suc)
    with bc have bc': "brace_count s = counted (seen ! ?k) + depth (drop (Suc ?k) seen)"
      by (simp add: depth_Cons)
    from k(1,2) sg bc' so [unfolded k(3)] show ?thesis by blast
  qed
  show ?thesis
  proof (cases rule: loop_body_cases [of l fp s ?n])
    case skip
    show ?thesis
    proof (cases "in_function s")
      case True
      from inside [OF True] obtain k where k: "func_start s = int k + 1" "k < length seen"
        "is_signature (seen ! k)" "brace_count s = counted (seen ! k) + depth (drop (Suc k) seen)"
        "stays_open (counted (seen ! k)) (drop (Suc k) seen)" by blast
      from k(2) have "drop k (seen @ [l]) = seen ! k # drop (Suc k) seen @ [l]"
        by (simp add: Cons_nth_drop_Suc)
      with k skip recs True show ?thesis
        by (simp add: tracking_def nth_append depth_Cons depth_append stays_open_snoc
              counted_skipped nat_int_Suc depth_def)
    next
      case False
      with skip recs show ?thesis by (simp add: tracking_def)
    qed
  next
    case (start name)
    with recs show ?thesis
      by (simp add: tracking_def nth_append depth_def counted_unskipped is_signature_def
            stays_open_Nil nat_int_Suc)
  next
    case outside
    with recs show ?thesis by (simp add: tracking_def)
  next
    case inside': inside
    from inside [OF inside'(1)] obtain k where k: "func_start s = int k + 1" "k < length seen"
      "is_signature (seen ! k)" "brace_count s = counted (seen ! k) + depth (drop (Suc k) seen)"
      "stays_open (counted (seen ! k)) (drop (Suc k) seen)" by blast
    from k(2) have "drop k (seen @ [l]) = seen ! k # drop (Suc k) seen @ [l]"
      by (simp add: Cons_nth_drop_Suc)
    with k inside' recs show ?thesis
      by (simp add: tracking_def nth_append depth_Cons depth_append stays_open_snoc
            counted_unskipped nat_int_Suc depth_def)
  next
    case close
    from inside [OF close(1)] obtain k where k: "func_start s = int k + 1" "k < length seen"
      "is_signature (seen ! k)" "brace_count s = counted (seen ! k) + depth (drop (Suc k) seen)"
      "stays_open (counted (seen ! k)) (drop (Suc k) seen)" by blast
    let ?r = "(func_name s, func_start s, ?n - func_start s + 1, fp)"
    have body: "take (nat (length_of ?r - 1)) (drop (nat (start_of ?r)) (seen @ [l])) =
                drop (Suc k) seen @ [l]"
      using k(1,2) by (simp add: length_of_def start_of_def nat_int_Suc)
    have "depth (seen ! k # drop (Suc k) seen @ [l]) = 0"
      using k(4) close(2,3) by (simp add: depth_Cons depth_append depth_def counted_unskipped)
    with k close(2) have "closes_at_last (seen ! k) (drop (Suc k) seen @ [l])"
      by (simp add: closes_at_last_def)
    with k(1,2,3) body have "closing_observed (seen @ [l]) ?r"
      by (simp add: closing_observed_def nth_append length_of_def start_of_def)
    with recs close show ?thesis by (simp add: tracking_def)
  qed
qed

lemma tracking_scan_from:
  "tracking seen s \<Longrightarrow> tracking (seen @ ls) (scan_from fp (int (length seen) + 1) s ls)"
proof (induction ls arbitrary: seen s)
  case Nil
  then show ?case by simp
next
  case (Cons l ls)
  from Cons.prems have "tracking (seen @ [l]) (loop_body fp s (int (length seen) + 1, l))"
    by (rule tracking_step)
  from Cons.IH [OF this] show ?case by (simp add: add.commute)
qed

lemma tracking_scan: "tracking ls (scan fp ls)"
  using tracking_scan_from [of "[]" init_state ls fp]
  by (simp add: scan_def tracking_def init_state_def)

lemma last_take_nth: "1 \<le> m \<Longrightarrow> m \<le> length xs \<Longrightarrow> last (take m xs) = xs ! (m - 1)"
proof -
  assume m: "1 \<le> m" "m \<le> length xs"
  then have "take m xs \<noteq> []" by auto
  then have "last (take m xs) = take m xs ! (length (take m xs) - 1)" by (rule last_conv_nth)
  also from m have "\<dots> = xs ! (m - 1)" by (simp add: min_absorb2)
  finally show ?thesis .
qed

lemma closed_prefix_not_open:
  assumes cl: "closes_at_last sig (take m rest)" and m: "1 \<le> m" "m \<le> length rest"
  shows "\<not> stays_open (counted sig) rest"
proof
  assume never: "stays_open (counted sig) rest"
  from m have "last (take m rest) = rest ! (m - 1)" by (rule last_take_nth)
  with cl have unskipped: "\<not> skipped (strip (rest ! (m - 1)))"
    and zero: "counted sig + depth (take m rest) = 0"
    by (simp_all add: closes_at_last_def depth_Cons)
  from m have "m \<in> {1..length rest}" by simp
  with never unskipped have "counted sig + depth (take m rest) \<noteq> 0"
    unfolding stays_open_def by blast
  with zero show False by simp
qed

lemma closed_not_never_closes:
  assumes obs: "closing_observed lines r" and k: "start_of r = int k + 1"
  shows "\<not> never_closes (lines ! k) (drop (Suc k) lines)"
proof -
  from obs k have "1 \<le> nat (length_of r - 1)"
    and "nat (length_of r - 1) \<le> length (drop (Suc k) lines)"
    and "closes_at_last (lines ! k) (take (nat (length_of r - 1)) (drop (Suc k) lines))"
    by (auto simp: closing_observed_def nat_int_Suc)
  then show ?thesis
    unfolding never_closes_def by (intro closed_prefix_not_open)
qed



end
